theory Spec2Isabelle
  imports Main
begin

section \<open>The split-pdf endpoint of api.py\<close>

text \<open>
  The development embeds \<open>split_pdf_by_confidence\<close> (api.py, lines 456 to 571): the
  collection of the high-confidence pages from the segments of a job result, the
  derivation of the page ranges, the page-copy loop that fills one writer per range, the
  naming of the parts and the list of archive entries.

  Python integers are \<open>int\<close>. A Python string is the list of the bytes of its UTF-8
  encoding, so that the dot, the digits and the NUL character are one \<open>char\<close> each. A
  parsed PDF is the list of its pages, over an arbitrary page type \<open>'p\<close>; the parser of
  pypdf is a parameter \<open>PdfReader\<close> of the endpoint, returning \<open>None\<close> where the
  library raises. The bytes that \<open>PdfWriter.write\<close> and \<open>zipfile\<close> produce are
  those libraries' business: a written part is the list of the pages added to its writer,
  an archive the list of its entries, name and content, in writing order. What
  \<open>ZipFile.writestr\<close> does to the name of an entry, and what the response does to its
  header, is modelled, on a system whose path separator is the slash.
\<close>

subsection \<open>Data\<close>

type_synonym range = "int \<times> int"

type_synonym bytes = "char list"

text \<open>The value under the key \<open>pages\<close> of a segment: a list of page numbers, or some
  JSON value that is not a list.\<close>

datatype pages_value = PageList "int list" | NotAList

text \<open>A segment dictionary. A field is \<open>None\<close> when the key is absent;
  \<open>confidence_category\<close> holds the string stored there.\<close>

record segment =
  confidence_category :: "string option"
  pages :: "pages_value option"

text \<open>The \<open>result\<close> dictionary of a job; \<open>segments\<close> is \<open>None\<close> when the key is
  absent, which covers the empty dictionary.\<close>

record split_result =
  segments :: "segment list option"

text \<open>An entry of \<open>jobs_storage\<close>, with the keys that \<open>create_job\<close> always stores
  (line 374); \<open>None\<close> is Python's \<open>None\<close>.\<close>

record job =
  status :: "string option"
  result :: "split_result option"
  filename :: "string option"
  original_file_content :: "bytes option"

text \<open>The dictionary appended to \<open>split_pdfs\<close> (line 543). Its keys are
  \<open>filename\<close>, \<open>content\<close> and \<open>pages\<close>; the fields carry the prefix \<open>part\<close> to
  keep them apart from the fields of a job and of a segment.\<close>

record 'p split_pdf =
  part_filename :: string
  part_content :: "'p list"
  part_pages :: string

text \<open>The streaming response: the entries written to the archive, in order, and the
  name of the archive.\<close>

record 'p response =
  zip_entries :: "(string \<times> 'p list) list"
  zip_filename :: string

subsection \<open>Errors\<close>

datatype python_exception =
  IndexError | TypeError | PdfReadError | StructError | UnicodeEncodeError

text \<open>The detail of an \<open>HTTPException\<close>: a fixed message, or the message built at
  line 571 from the exception caught around the splitting.\<close>

datatype detail = Message string | ErrorSplittingPDF python_exception

datatype error = HTTPException nat detail

subsection \<open>Collecting the high-confidence pages (lines 486 to 499)\<close>

text \<open>\<open>segment.get("pages", [])\<close>\<close>

definition get_pages :: "segment \<Rightarrow> pages_value" where
  "get_pages seg = (case pages seg of None \<Rightarrow> PageList [] | Some v \<Rightarrow> v)"

text \<open>One pass of the loop body of line 489 over the accumulator.\<close>

definition extend_high :: "segment \<Rightarrow> int list \<Rightarrow> int list" where
  "extend_high seg high_pages =
     (if confidence_category seg = Some ''high'' then
        (case get_pages seg of
           PageList ps \<Rightarrow> if length ps > 0 then high_pages @ ps else high_pages
         | NotAList \<Rightarrow> high_pages)
      else high_pages)"

fun collect_high :: "segment list \<Rightarrow> int list \<Rightarrow> int list" where
  "collect_high [] high_pages = high_pages"
| "collect_high (seg # segs) high_pages = collect_high segs (extend_high seg high_pages)"

definition high_confidence_pages :: "segment list \<Rightarrow> int list" where
  "high_confidence_pages segs = collect_high segs []"

text \<open>\<open>sorted(set(high_confidence_pages))\<close>\<close>

definition sorted_set :: "int list \<Rightarrow> int list" where
  "sorted_set xs = sort (remdups xs)"

subsection \<open>Deriving the ranges (lines 508 to 523)\<close>

text \<open>The range appended at position \<open>i\<close> of the enumeration of line 515.\<close>

definition range_at :: "int \<Rightarrow> int list \<Rightarrow> nat \<Rightarrow> range" where
  "range_at total_pages high_pages i =
     (let start_page = high_pages ! i;
          end_page = (if i + 1 < length high_pages then high_pages ! (i + 1) - 1
                      else total_pages)
      in (start_page, end_page))"

text \<open>\<open>high_confidence_pages[0]\<close> raises on the empty list.\<close>

definition split_ranges :: "int \<Rightarrow> int list \<Rightarrow> python_exception + range list" where
  "split_ranges total_pages high_pages =
     (case high_pages of
        [] \<Rightarrow> Inl IndexError
      | first # _ \<Rightarrow>
          Inr ((if first > 1 then [(1, first - 1)] else [])
               @ map (range_at total_pages high_pages) [0..<length high_pages]))"

subsection \<open>Copying the pages of a range (lines 528 to 532)\<close>

text \<open>\<open>range(a, b)\<close>\<close>

definition py_range :: "int \<Rightarrow> int \<Rightarrow> int list" where
  "py_range a b = [a..b - 1]"

text \<open>\<open>pdf_reader.pages[page_num]\<close>: an index below zero counts from the end, and an
  index that is out of range after that raises.\<close>

definition pages_getitem :: "'p list \<Rightarrow> int \<Rightarrow> python_exception + 'p" where
  "pages_getitem pdf_pages page_num =
     (let len_self = int (length pdf_pages);
          index = (if page_num < 0 then page_num + len_self else page_num)
      in if index < 0 \<or> len_self \<le> index then Inl IndexError
         else Inr (pdf_pages ! nat index))"

fun add_pages :: "'p list \<Rightarrow> int list \<Rightarrow> 'p list \<Rightarrow> python_exception + 'p list" where
  "add_pages pdf_pages [] writer = Inr writer"
| "add_pages pdf_pages (page_num # rest) writer =
     (case pages_getitem pdf_pages page_num of
        Inl e \<Rightarrow> Inl e
      | Inr page \<Rightarrow> add_pages pdf_pages rest (writer @ [page]))"

text \<open>The indices that the loop of line 531 runs through.\<close>

definition page_nums :: "'p list \<Rightarrow> int \<Rightarrow> int \<Rightarrow> int list" where
  "page_nums pdf_pages start end' =
     (let total_pages = int (length pdf_pages)
      in py_range (start - 1) (min end' total_pages))"

definition copy_pages :: "'p list \<Rightarrow> int \<Rightarrow> int \<Rightarrow> python_exception + 'p list" where
  "copy_pages pdf_pages start end' = add_pages pdf_pages (page_nums pdf_pages start end') []"

subsection \<open>Naming the parts (lines 539 to 541)\<close>

text \<open>The decimal digits of a natural number, and \<open>str\<close> of an integer as an f-string
  prints it.\<close>

fun digits :: "nat \<Rightarrow> string" where
  "digits n = (if n < 10 then [''0123456789'' ! n]
               else digits (n div 10) @ [''0123456789'' ! (n mod 10)])"

declare digits.simps [simp del]

definition str_int :: "int \<Rightarrow> string" where
  "str_int i = (if i < 0 then CHR ''-'' # digits (nat (- i)) else digits (nat i))"

text \<open>\<open>original_filename.rsplit('.', 1)[0] if '.' in original_filename else
  original_filename\<close>: the name up to its last dot.\<close>

definition base_name_of :: "string \<Rightarrow> string" where
  "base_name_of original_filename =
     (if CHR ''.'' \<in> set original_filename
      then rev (tl (dropWhile (\<lambda>c. c \<noteq> CHR ''.'') (rev original_filename)))
      else original_filename)"

definition split_filename :: "string \<Rightarrow> int \<Rightarrow> int \<Rightarrow> int \<Rightarrow> string" where
  "split_filename base_name idx start end' =
     base_name @ ''_part_'' @ str_int idx @ ''_pages_'' @ str_int start @ ''-''
       @ str_int end' @ ''.pdf''"

subsection \<open>Slicing (lines 526 to 547) and bundling (lines 549 to 553)\<close>

text \<open>The loop over \<open>enumerate(split_ranges, 1)\<close>. The filename of a job is \<open>None\<close>
  when the job was created without an upload; testing \<open>'.' in None\<close> raises.\<close>

fun make_split_pdfs ::
  "'p list \<Rightarrow> string option \<Rightarrow> int \<Rightarrow> range list \<Rightarrow> python_exception + 'p split_pdf list"
where
  "make_split_pdfs pdf_pages fname idx [] = Inr []"
| "make_split_pdfs pdf_pages fname idx ((start, end') # rest) =
     (case copy_pages pdf_pages start end' of
        Inl e \<Rightarrow> Inl e
      | Inr writer \<Rightarrow>
          (case fname of
             None \<Rightarrow> Inl TypeError
           | Some original_filename \<Rightarrow>
               (case make_split_pdfs pdf_pages fname (idx + 1) rest of
                  Inl e \<Rightarrow> Inl e
                | Inr split_pdfs \<Rightarrow>
                    Inr (\<lparr>part_filename =
                            split_filename (base_name_of original_filename) idx start end',
                          part_content = writer,
                          part_pages = str_int start @ ''-'' @ str_int end'\<rparr>
                         # split_pdfs))))"

text \<open>The name under which \<open>ZipInfo\<close> files an entry: the given name up to its first
  NUL character.\<close>

definition arcname :: "string \<Rightarrow> string" where
  "arcname name = takeWhile (\<lambda>c. c \<noteq> CHR 0x00) name"

text \<open>\<open>zip_file.writestr(name, data)\<close> on the entries written so far. Reading the last
  character of an empty name raises \<open>IndexError\<close>; the header has two bytes for the
  length of the name, and packing a longer one raises \<open>struct.error\<close>.\<close>

definition writestr ::
  "(string \<times> 'p list) list \<Rightarrow> string \<Rightarrow> 'p list \<Rightarrow> python_exception + (string \<times> 'p list) list"
where
  "writestr zip_file name data =
     (let filename = arcname name
      in if filename = [] then Inl IndexError
         else if length filename > 65535 then Inl StructError
         else Inr (zip_file @ [(filename, data)]))"

text \<open>The loop of line 552 over \<open>split_pdfs\<close>.\<close>

fun write_zip ::
  "'p split_pdf list \<Rightarrow> (string \<times> 'p list) list \<Rightarrow> python_exception + (string \<times> 'p list) list"
where
  "write_zip [] zip_file = Inr zip_file"
| "write_zip (split_pdf # rest) zip_file =
     (case writestr zip_file (part_filename split_pdf) (part_content split_pdf) of
        Inl e \<Rightarrow> Inl e
      | Inr zip_file' \<Rightarrow> write_zip rest zip_file')"

text \<open>The response encodes the values of its headers in Latin-1, which raises on a
  character beyond U+00FF: in UTF-8, on a byte from \<open>0xC4\<close> on.\<close>

definition latin1_encodable :: "string \<Rightarrow> bool" where
  "latin1_encodable s = list_all (\<lambda>c. (of_char c :: nat) < 196) s"

subsection \<open>The endpoint\<close>

text \<open>The body of the \<open>try\<close> (lines 502 to 568), on the sorted high-confidence
  pages.\<close>

definition split_body ::
  "(bytes \<Rightarrow> 'p list option) \<Rightarrow> job \<Rightarrow> bytes \<Rightarrow> int list \<Rightarrow> python_exception + 'p response"
where
  "split_body PdfReader job content high_pages =
     (case PdfReader content of
        None \<Rightarrow> Inl PdfReadError
      | Some pdf_pages \<Rightarrow>
          (let total_pages = int (length pdf_pages)
           in case split_ranges total_pages high_pages of
                Inl e \<Rightarrow> Inl e
              | Inr ranges \<Rightarrow>
                  (case make_split_pdfs pdf_pages (filename job) 1 ranges of
                     Inl e \<Rightarrow> Inl e
                   | Inr split_pdfs \<Rightarrow>
                       (case write_zip split_pdfs [] of
                          Inl e \<Rightarrow> Inl e
                        | Inr zip_file \<Rightarrow>
                            (case filename job of
                               None \<Rightarrow> Inl TypeError
                             | Some original_filename \<Rightarrow>
                                 (let zip_name = base_name_of original_filename @ ''_split_pdfs.zip''
                                  in if latin1_encodable (''attachment; filename='' @ zip_name)
                                     then Inr \<lparr>zip_entries = zip_file, zip_filename = zip_name\<rparr>
                                     else Inl UnicodeEncodeError))))))"

text \<open>\<open>str(job.get('status'))\<close> inside the message of line 473.\<close>

definition str_status :: "string option \<Rightarrow> string" where
  "str_status s = (case s of None \<Rightarrow> ''None'' | Some v \<Rightarrow> v)"

definition split_pdf_by_confidence ::
  "(bytes \<Rightarrow> 'p list option) \<Rightarrow> (string \<rightharpoonup> job) \<Rightarrow> string \<Rightarrow> error + 'p response"
where
  "split_pdf_by_confidence PdfReader jobs_storage job_id =
     (case jobs_storage job_id of
        None \<Rightarrow> Inl (HTTPException 404 (Message ''Job not found''))
      | Some job \<Rightarrow>
          if status job \<noteq> Some ''completed''
          then Inl (HTTPException 400
                 (Message (''Job is not completed. Current status: '' @ str_status (status job))))
          else
            (case result job of
               None \<Rightarrow> Inl (HTTPException 400 (Message ''Job result not available or invalid''))
             | Some res \<Rightarrow>
                 (case segments res of
                    None \<Rightarrow>
                      Inl (HTTPException 400 (Message ''Job result not available or invalid''))
                  | Some segs \<Rightarrow>
                      (case original_file_content job of
                         None \<Rightarrow>
                           Inl (HTTPException 400 (Message
                             ''Original file not available. Please upload file again or use file_id method.''))
                       | Some content \<Rightarrow>
                           if content = []
                           then Inl (HTTPException 400 (Message
                             ''Original file not available. Please upload file again or use file_id method.''))
                           else
                             (let high_pages = high_confidence_pages segs
                              in if high_pages = []
                                 then Inl (HTTPException 400
                                        (Message ''No high confidence pages found in the result''))
                                 else
                                   (case split_body PdfReader job content (sorted_set high_pages) of
                                      Inl e \<Rightarrow> Inl (HTTPException 500 (ErrorSplittingPDF e))
                                    | Inr resp \<Rightarrow> Inr resp))))))"

section \<open>Notions used in the statements and proofs\<close>

text \<open>A completed job as \<open>create_job\<close> stores it and \<open>get_job_details\<close>
  fills in its result, for the concrete runs below.\<close>

definition completed_job :: "segment list option \<Rightarrow> string \<Rightarrow> job" where
  "completed_job segs name =
     \<lparr>status = Some ''completed'', result = Some \<lparr>segments = segs\<rparr>,
      filename = Some name, original_file_content = Some ''%PDF''\<rparr>"

text \<open>The loop of line 515 as a recursion over the list of sorted pages: the range of a
  page ends before the next page, the range of the last page at the end of the document.\<close>

fun marked_ranges :: "int \<Rightarrow> int list \<Rightarrow> range list" where
  "marked_ranges total_pages [] = []"
| "marked_ranges total_pages [p] = [(p, total_pages)]"
| "marked_ranges total_pages (p # q # ps) = (p, q - 1) # marked_ranges total_pages (q # ps)"

text \<open>\<open>chain a rs b\<close>: the ranges \<open>rs\<close> are non-empty intervals that follow one another
  without gap, the first starting at \<open>a\<close>, the last ending at \<open>b\<close>.\<close>

fun chain :: "int \<Rightarrow> range list \<Rightarrow> int \<Rightarrow> bool" where
  "chain a [] b = (a = b + 1)"
| "chain a ((s, e) # rs) b = (s = a \<and> s \<le> e \<and> chain (e + 1) rs b)"

text \<open>The pages \<open>start\<close> to \<open>min end' total_pages\<close> of a document, counted from 1.\<close>

definition page_slice :: "'p list \<Rightarrow> int \<Rightarrow> int \<Rightarrow> 'p list" where
  "page_slice pdf_pages start end' =
     take (nat (min end' (int (length pdf_pages)) - (start - 1)))
       (drop (nat (start - 1)) pdf_pages)"

text \<open>The parts that the slicing loop builds when no page access fails.\<close>

fun parts_of :: "'p list \<Rightarrow> string \<Rightarrow> int \<Rightarrow> range list \<Rightarrow> 'p split_pdf list" where
  "parts_of pdf_pages f idx [] = []"
| "parts_of pdf_pages f idx ((start, end') # rest) =
     \<lparr>part_filename = split_filename (base_name_of f) idx start end',
      part_content = page_slice pdf_pages start end',
      part_pages = str_int start @ ''-'' @ str_int end'\<rparr>
     # parts_of pdf_pages f (idx + 1) rest"

text \<open>The extension of a file name as the specification of the slicer speaks of it: the
  last dot of the name and what follows it, nothing for a name without a dot. The code has
  no such function; it is here to state what the code does not do.\<close>

definition original_extension :: "string \<Rightarrow> string" where
  "original_extension original_filename =
     (if CHR ''.'' \<in> set original_filename
      then CHR ''.'' # rev (takeWhile (\<lambda>c. c \<noteq> CHR ''.'') (rev original_filename))
      else [])"

section \<open>Auxiliary facts\<close>

subsection \<open>The ranges form a chain\<close>

lemma range_at_Cons:
  "range_at t (p # q # ps) (Suc i) = range_at t (q # ps) i"
  by (simp add: range_at_def)

lemma map_range_at: "map (range_at t hp) [0..<length hp] = marked_ranges t hp"
proof (induction t hp rule: marked_ranges.induct)
  case (1 t)
  show ?case by simp
next
  case (2 t p)
  show ?case by (simp add: range_at_def)
next
  case (3 t p q ps)
  have "map (range_at t (p # q # ps)) [0..<length (p # q # ps)]
        = range_at t (p # q # ps) 0 # map (\<lambda>i. range_at t (p # q # ps) (Suc i)) [0..<length (q # ps)]"
    by (simp add: map_upt_Suc del: upt_Suc)
  also have "\<dots> = (p, q - 1) # map (range_at t (q # ps)) [0..<length (q # ps)]"
    by (simp add: range_at_Cons range_at_def del: upt_Suc)
  also have "\<dots> = (p, q - 1) # marked_ranges t (q # ps)"
    using 3 by (simp only:)
  finally show ?case by (simp del: upt_Suc)
qed

lemma chain_marked:
  "sorted_wrt (<) (p # ps) \<Longrightarrow> \<forall>x \<in> set (p # ps). x \<le> t \<Longrightarrow> chain p (marked_ranges t (p # ps)) t"
proof (induction ps arbitrary: p)
  case Nil
  then show ?case by simp
next
  case (Cons q qs)
  then show ?case by simp
qed

lemma chain_le: "chain a rs b \<Longrightarrow> a \<le> b + 1"
  by (induction a rs b rule: chain.induct) auto

lemma chain_starts: "chain a rs b \<Longrightarrow> r \<in> set rs \<Longrightarrow> a \<le> fst r \<and> fst r \<le> snd r \<and> snd r \<le> b"
proof (induction a rs b rule: chain.induct)
  case (1 a b)
  then show ?case by simp
next
  case (2 a s e rs b)
  from "2.prems" have c: "chain (e + 1) rs b" and s: "s = a" "s \<le> e" by simp_all
  from c have eb: "e \<le> b" using chain_le by fastforce
  show ?case
  proof (cases "r = (s, e)")
    case True
    with s eb show ?thesis by simp
  next
    case False
    with "2.prems" have "r \<in> set rs" by simp
    with "2.IH" c have "e + 1 \<le> fst r \<and> fst r \<le> snd r \<and> snd r \<le> b" by simp
    with s show ?thesis by simp
  qed
qed

lemma chain_sorted: "chain a rs b \<Longrightarrow> sorted_wrt (<) (map fst rs)"
proof (induction a rs b rule: chain.induct)
  case (1 a b)
  then show ?case by simp
next
  case (2 a s e rs b)
  have "\<forall>r \<in> set rs. s < fst r"
  proof
    fix r assume "r \<in> set rs"
    moreover from "2.prems" have "chain (e + 1) rs b" by simp
    ultimately have "e + 1 \<le> fst r" using chain_starts by blast
    then show "s < fst r" using "2.prems" by simp
  qed
  with 2 show ?case by simp
qed

lemma chain_union: "chain a rs b \<Longrightarrow> (\<Union>r \<in> set rs. {fst r..snd r}) = {a..b}"
proof (induction a rs b rule: chain.induct)
  case (1 a b)
  then show ?case by simp
next
  case (2 a s e rs b)
  then have "e + 1 \<le> b + 1" by (auto dest: chain_le)
  with 2 show ?case by auto
qed

lemma chain_adjacent: "chain a rs b \<Longrightarrow> Suc i < length rs \<Longrightarrow> fst (rs ! Suc i) = snd (rs ! i) + 1"
proof (induction a rs b arbitrary: i rule: chain.induct)
  case (1 a b)
  then show ?case by simp
next
  case (2 a s e rs b)
  show ?case
  proof (cases i)
    case 0
    with 2 show ?thesis by (cases rs) auto
  next
    case (Suc k)
    with 2 show ?thesis by simp
  qed
qed

lemma chain_disjoint:
  "chain a rs b \<Longrightarrow> i < j \<Longrightarrow> j < length rs \<Longrightarrow> {fst (rs ! i)..snd (rs ! i)} \<inter> {fst (rs ! j)..snd (rs ! j)} = {}"
proof (induction a rs b arbitrary: i j rule: chain.induct)
  case (1 a b)
  then show ?case by simp
next
  case (2 a s e rs b)
  obtain k where j: "j = Suc k" using 2 by (cases j) auto
  show ?case
  proof (cases i)
    case 0
    have "rs ! k \<in> set rs" using 2 j by simp
    moreover have "chain (e + 1) rs b" using 2 by simp
    ultimately have "e + 1 \<le> fst (rs ! k)" using chain_starts by blast
    with 0 j show ?thesis by auto
  next
    case (Suc m)
    with 2 j show ?thesis by simp
  qed
qed

lemma chain_split_ranges:
  assumes "hp \<noteq> []" "sorted_wrt (<) hp" "\<forall>x \<in> set hp. 1 \<le> x \<and> x \<le> t"
  shows "\<exists>rs. split_ranges t hp = Inr rs \<and> chain 1 rs t"
proof -
  obtain p ps where hp: "hp = p # ps" using assms(1) by (cases hp) auto
  have c: "chain p (marked_ranges t (p # ps)) t"
    using assms hp chain_marked by auto
  have "1 \<le> p" using assms hp by simp
  then show ?thesis using c
    unfolding split_ranges_def hp map_range_at by (cases "1 < p") auto
qed

lemma sorted_set_strict: "sorted_wrt (<) (sorted_set xs)"
  by (simp add: sorted_set_def strict_sorted_iff)

lemma set_sorted_set: "set (sorted_set xs) = set xs"
  by (simp add: sorted_set_def)

lemma derive_chain:
  assumes "marked \<noteq> []" and "\<forall>p \<in> set marked. 1 \<le> p \<and> p \<le> total_pages"
  shows "\<exists>rs. split_ranges total_pages (sorted_set marked) = Inr rs \<and> chain 1 rs total_pages"
proof -
  have "set (sorted_set marked) \<noteq> {}" using assms(1) by (simp add: set_sorted_set)
  then have "sorted_set marked \<noteq> []" by auto
  then show ?thesis
    using assms(2) by (intro chain_split_ranges) (simp_all add: sorted_set_strict set_sorted_set)
qed

lemma map_fst_marked_ranges: "map fst (marked_ranges t hp) = hp"
  by (induction t hp rule: marked_ranges.induct) auto

lemma consecutive_marks:
  "sorted_wrt (<) (p # ps) \<Longrightarrow> m \<in> set (p # ps) \<Longrightarrow> m + 1 \<in> set (p # ps) \<Longrightarrow>
   (m, m) \<in> set (marked_ranges t (p # ps))"
proof (induction ps arbitrary: p)
  case Nil
  then show ?case by simp
next
  case (Cons q qs)
  show ?case
  proof (cases "m = p")
    case True
    have "m + 1 \<in> set (q # qs)" using Cons.prems True by auto
    moreover have "\<forall>x \<in> set qs. q < x" using Cons.prems by simp
    moreover have "p < q" using Cons.prems by simp
    ultimately have "q = m + 1" using True by auto
    with True show ?thesis by simp
  next
    case False
    have lt: "\<forall>x \<in> set (q # qs). p < x" using Cons.prems by simp
    have "m \<in> set (q # qs)" using Cons.prems False by auto
    moreover from this lt have "m + 1 \<noteq> p" by fastforce
    then have "m + 1 \<in> set (q # qs)" using Cons.prems by auto
    moreover have "sorted_wrt (<) (q # qs)" using Cons.prems by simp
    ultimately have "(m, m) \<in> set (marked_ranges t (q # qs))" using Cons.IH by blast
    then show ?thesis by simp
  qed
qed

lemma filter_distinct_key:
  "distinct (map f xs) \<Longrightarrow> x \<in> set xs \<Longrightarrow> length (filter (\<lambda>r. f r = f x) xs) = 1"
proof (induction xs)
  case Nil
  then show ?case by simp
next
  case (Cons y ys)
  show ?case
  proof (cases "x = y")
    case True
    have "f y \<notin> f ` set ys" using Cons.prems by simp
    then have "\<forall>r \<in> set ys. f r \<noteq> f y" by (metis imageI)
    then have "filter (\<lambda>r. f r = f y) ys = []"
      by (induction ys) auto
    with True show ?thesis by simp
  next
    case False
    then have "x \<in> set ys" using Cons.prems by simp
    moreover from this have "f y \<noteq> f x" using Cons.prems by auto
    ultimately show ?thesis using Cons by simp
  qed
qed

lemma split_ranges_marks:
  assumes "hp = p # ps"
  shows "split_ranges t hp = Inr ((if p > 1 then [(1, p - 1)] else []) @ marked_ranges t hp)"
  using map_range_at [of t "p # ps"] by (simp add: split_ranges_def assms del: upt_Suc)

lemma collect_high_append:
  "collect_high (xs @ ys) acc = collect_high ys (collect_high xs acc)"
  by (induction xs arbitrary: acc) auto

lemma extend_high_no_pages: "pages seg = None \<Longrightarrow> extend_high seg acc = acc"
  by (simp add: extend_high_def get_pages_def)

lemma high_confidence_pages_skip:
  "pages seg = None \<Longrightarrow>
   high_confidence_pages (segs1 @ seg # segs2) = high_confidence_pages (segs1 @ segs2)"
  by (simp add: high_confidence_pages_def collect_high_append extend_high_no_pages)

lemma split_body_filename:
  "filename job' = filename job \<Longrightarrow> split_body R job' c hp = split_body R job c hp"
  by (simp add: split_body_def Let_def split: option.split sum.split)

subsection \<open>The page-copy loop and the parts\<close>

lemma pages_getitem_in_range:
  "0 \<le> i \<Longrightarrow> i < int (length ps) \<Longrightarrow> pages_getitem ps i = Inr (ps ! nat i)"
  by (simp add: pages_getitem_def)

lemma add_pages_upto:
  "0 \<le> a \<Longrightarrow> b < int (length ps) \<Longrightarrow> n = nat (b + 1 - a) \<Longrightarrow>
   add_pages ps [a..b] w = Inr (w @ take n (drop (nat a) ps))"
proof (induction n arbitrary: a w)
  case 0
  then have "[a..b] = []" by simp
  with 0 show ?case by simp
next
  case (Suc n)
  then have ab: "a \<le> b" by simp
  then have u: "[a..b] = a # [a + 1..b]" by (simp add: upto_rec1)
  have g: "pages_getitem ps a = Inr (ps ! nat a)"
    using Suc.prems ab by (simp add: pages_getitem_in_range)
  have n: "n = nat (b + 1 - (a + 1))" using Suc.prems by simp
  have ih: "add_pages ps [a + 1..b] (w @ [ps ! nat a]) = Inr ((w @ [ps ! nat a]) @ take n (drop (nat (a + 1)) ps))"
    using Suc.IH [of "a + 1" "w @ [ps ! nat a]"] Suc.prems n by simp
  have lt: "nat a < length ps" using Suc.prems ab by simp
  have "nat (a + 1) = Suc (nat a)" using Suc.prems by simp
  then have "ps ! nat a # take n (drop (nat (a + 1)) ps) = take (Suc n) (drop (nat a) ps)"
    using lt by (simp add: Cons_nth_drop_Suc [symmetric])
  then show ?case using u g ih by simp
qed

lemma copy_pages_ok:
  assumes "1 \<le> start"
  shows "copy_pages pdf_pages start end' = Inr (page_slice pdf_pages start end')"
proof -
  let ?t = "int (length pdf_pages)"
  have "add_pages pdf_pages [start - 1..min end' ?t - 1] []
        = Inr ([] @ take (nat (min end' ?t - 1 + 1 - (start - 1))) (drop (nat (start - 1)) pdf_pages))"
    using assms by (intro add_pages_upto) auto
  then show ?thesis
    by (simp add: copy_pages_def page_nums_def py_range_def page_slice_def)
qed

lemma length_page_slice:
  "1 \<le> start \<Longrightarrow>
   int (length (page_slice pdf_pages start end')) = max 0 (min end' (int (length pdf_pages)) - start + 1)"
  by (auto simp: page_slice_def)

lemma make_split_pdfs_ok:
  "\<forall>r \<in> set rs. 1 \<le> fst r \<Longrightarrow>
   make_split_pdfs pdf_pages (Some f) idx rs = Inr (parts_of pdf_pages f idx rs)"
  by (induction rs arbitrary: idx) (auto simp: copy_pages_ok)

lemma length_parts_of: "length (parts_of pdf_pages f idx rs) = length rs"
  by (induction rs arbitrary: idx) auto

lemma nth_parts_of:
  "i < length rs \<Longrightarrow>
   parts_of pdf_pages f idx rs ! i =
     \<lparr>part_filename = split_filename (base_name_of f) (idx + int i) (fst (rs ! i)) (snd (rs ! i)),
      part_content = page_slice pdf_pages (fst (rs ! i)) (snd (rs ! i)),
      part_pages = str_int (fst (rs ! i)) @ ''-'' @ str_int (snd (rs ! i))\<rparr>"
proof (induction rs arbitrary: idx i)
  case Nil
  then show ?case by simp
next
  case (Cons r rs)
  obtain s e where r: "r = (s, e)" by (cases r)
  show ?case
  proof (cases i)
    case 0
    with r show ?thesis by simp
  next
    case (Suc k)
    with Cons r show ?thesis by (simp add: add.assoc)
  qed
qed

lemma chain_page_count:
  "chain a rs b \<Longrightarrow> 1 \<le> a \<Longrightarrow> b = int (length pdf_pages) \<Longrightarrow>
   int (\<Sum>d\<leftarrow>parts_of pdf_pages f idx rs. length (part_content d)) = b + 1 - a"
proof (induction a rs b arbitrary: idx rule: chain.induct)
  case (1 a b)
  then show ?case by simp
next
  case (2 a s e rs b)
  from "2.prems" have c: "chain (e + 1) rs b" and s: "s = a" "s \<le> e" by simp_all
  from c have eb: "e \<le> b" using chain_le by fastforce
  have "int (length (page_slice pdf_pages s e)) = e - s + 1"
    using s eb "2.prems" by (simp add: length_page_slice)
  moreover have "int (\<Sum>d\<leftarrow>parts_of pdf_pages f (idx + 1) rs. length (part_content d)) = b + 1 - (e + 1)"
    using "2.IH" [of "idx + 1"] c s "2.prems" by simp
  ultimately show ?case using s by simp
qed

lemma add_pages_wrap:
  "\<forall>i \<in> set nums. - int (length ps) \<le> i \<and> i < int (length ps) \<Longrightarrow>
   \<exists>writer. add_pages ps nums w = Inr writer \<and> length writer = length w + length nums"
proof (induction nums arbitrary: w)
  case Nil
  then show ?case by simp
next
  case (Cons i nums)
  then have "- int (length ps) \<le> i" and "i < int (length ps)" by simp_all
  then have "pages_getitem ps i = Inr (ps ! nat (if i < 0 then i + int (length ps) else i))"
    by (cases "i < 0") (simp_all add: pages_getitem_def)
  then obtain page where g: "pages_getitem ps i = Inr page" by blast
  from Cons.IH [of "w @ [page]"] Cons.prems
  obtain writer where "add_pages ps nums (w @ [page]) = Inr writer"
    and "length writer = length (w @ [page]) + length nums" by auto
  with g show ?case by simp
qed

lemma add_pages_first_fails:
  "i < - int (length ps) \<Longrightarrow> add_pages ps (i # nums) w = Inl IndexError"
  by (simp add: pages_getitem_def)

lemma page_nums_empty:
  "min end' (int (length pdf_pages)) < start \<Longrightarrow> page_nums pdf_pages start end' = []"
  by (simp add: page_nums_def py_range_def)

lemma page_nums_Cons:
  "start \<le> min end' (int (length pdf_pages)) \<Longrightarrow>
   page_nums pdf_pages start end' = (start - 1) # [start..min end' (int (length pdf_pages)) - 1]"
  by (simp add: page_nums_def py_range_def upto_rec1)

lemma length_page_nums:
  "int (length (page_nums pdf_pages start end')) = max 0 (min end' (int (length pdf_pages)) - start + 1)"
  by (simp add: page_nums_def py_range_def)

lemma copy_pages_raises:
  assumes "start \<le> min end' (int (length pdf_pages))" and "start < 1 - int (length pdf_pages)"
  shows "copy_pages pdf_pages start end' = Inl IndexError"
proof -
  let ?t = "int (length pdf_pages)"
  have "copy_pages pdf_pages start end'
        = add_pages pdf_pages ((start - 1) # [start..min end' ?t - 1]) []"
    using assms(1) by (simp only: copy_pages_def page_nums_Cons)
  also have "\<dots> = Inl IndexError"
    using assms(2) by (intro add_pages_first_fails) simp
  finally show ?thesis .
qed

lemma copy_pages_returns:
  assumes "min end' (int (length pdf_pages)) < start \<or> 1 - int (length pdf_pages) \<le> start"
  shows "\<exists>writer. copy_pages pdf_pages start end' = Inr writer
           \<and> int (length writer) = max 0 (min end' (int (length pdf_pages)) - start + 1)"
proof -
  let ?t = "int (length pdf_pages)"
  have "\<forall>i \<in> set (page_nums pdf_pages start end'). - ?t \<le> i \<and> i < ?t"
    using assms by (auto simp: page_nums_def py_range_def)
  from add_pages_wrap [OF this, of "[]"]
  obtain writer where w: "copy_pages pdf_pages start end' = Inr writer"
    and "length writer = length (page_nums pdf_pages start end')"
    by (auto simp: copy_pages_def)
  then have "int (length writer) = max 0 (min end' ?t - start + 1)"
    using length_page_nums [of pdf_pages start end'] by simp
  with w show ?thesis by blast
qed

subsection \<open>The archive and the names of its entries\<close>

lemma write_zip_ok:
  "\<forall>p \<in> set ps. arcname (part_filename p) \<noteq> [] \<and> length (arcname (part_filename p)) \<le> 65535 \<Longrightarrow>
   write_zip ps z = Inr (z @ map (\<lambda>p. (arcname (part_filename p), part_content p)) ps)"
  by (induction ps arbitrary: z) (simp_all add: writestr_def)

lemma write_zip_fails:
  "\<not> (\<forall>p \<in> set ps. arcname (part_filename p) \<noteq> [] \<and> length (arcname (part_filename p)) \<le> 65535) \<Longrightarrow>
   \<exists>e. write_zip ps z = Inl e"
proof (induction ps arbitrary: z)
  case Nil
  then show ?case by simp
next
  case (Cons p ps)
  show ?case
  proof (cases "arcname (part_filename p) \<noteq> [] \<and> length (arcname (part_filename p)) \<le> 65535")
    case True
    with Cons.prems have "\<not> (\<forall>q \<in> set ps. arcname (part_filename q) \<noteq> []
        \<and> length (arcname (part_filename q)) \<le> 65535)" by simp
    from Cons.IH [OF this] True show ?thesis by (simp add: writestr_def)
  next
    case False
    then show ?thesis by (auto simp: writestr_def Let_def)
  qed
qed

lemma arcname_id: "CHR 0x00 \<notin> set name \<Longrightarrow> arcname name = name"
  by (auto simp: arcname_def)

lemma set_digits: "set (digits n) \<subseteq> set ''0123456789''"
proof (induction n rule: digits.induct)
  case (1 n)
  have d: "''0123456789'' ! k \<in> set ''0123456789''" if "k < 10" for k
    using that by (intro nth_mem) simp
  show ?case
  proof (cases "n < 10")
    case True
    then show ?thesis using d [of n] by (subst digits.simps) simp
  next
    case False
    have "n mod 10 < 10" by simp
    then have "''0123456789'' ! (n mod 10) \<in> set ''0123456789''" by (rule d)
    with False 1 show ?thesis by (subst digits.simps) simp
  qed
qed

lemma nul_str_int: "CHR 0x00 \<notin> set (str_int i)"
proof -
  have "CHR 0x00 \<notin> set (digits n)" for n using set_digits [of n] by auto
  then show ?thesis by (simp add: str_int_def)
qed

lemma set_base_name_of: "set (base_name_of f) \<subseteq> set f"
proof (cases "CHR ''.'' \<in> set f")
  case True
  have "set (tl (dropWhile (\<lambda>c. c \<noteq> CHR ''.'') (rev f))) \<subseteq> set (dropWhile (\<lambda>c. c \<noteq> CHR ''.'') (rev f))"
    by (metis list.set_sel(2) subsetI tl_Nil)
  also have "\<dots> \<subseteq> set (rev f)" by (auto dest: set_dropWhileD)
  finally show ?thesis using True by (simp add: base_name_of_def)
next
  case False
  then show ?thesis by (simp add: base_name_of_def)
qed

lemma nul_split_filename:
  "CHR 0x00 \<notin> set f \<Longrightarrow> CHR 0x00 \<notin> set (split_filename (base_name_of f) idx s e)"
  using set_base_name_of [of f] nul_str_int by (auto simp: split_filename_def)

lemma part_filename_parts_of:
  "p \<in> set (parts_of pdf_pages f idx rs) \<Longrightarrow>
   \<exists>i s e. part_filename p = split_filename (base_name_of f) i s e"
proof (induction rs arbitrary: idx)
  case Nil
  then show ?case by simp
next
  case (Cons r rs)
  obtain s e where r: "r = (s, e)" by (cases r)
  show ?case
  proof (cases "p \<in> set (parts_of pdf_pages f (idx + 1) rs)")
    case True
    then show ?thesis by (rule Cons.IH)
  next
    case False
    with Cons.prems r have "part_filename p = split_filename (base_name_of f) idx s e" by auto
    then show ?thesis by blast
  qed
qed

text \<open>The defining equations that a run on a concrete input unfolds.\<close>

lemmas eval_defs =
  split_pdf_by_confidence_def high_confidence_pages_def extend_high_def
  get_pages_def sorted_set_def split_body_def split_ranges_def range_at_def
  copy_pages_def page_nums_def py_range_def pages_getitem_def split_filename_def
  base_name_of_def str_int_def digits.simps writestr_def arcname_def latin1_encodable_def
  upto.simps str_status_def Let_def

section \<open>Range derivation\<close>

text \<open>
  Claim C1. For every total page count of at least 1 and every non-empty collection of
  marked pages that all lie between 1 and the total, the derived ranges are valid: their
  starts ascend (strictly), every range has its start at or before its end, each range
  starts on the page after the end of the one before it, no two ranges overlap, and
  together they cover exactly the pages 1 to the total.
\<close>

theorem derived_ranges_valid:
  assumes "1 \<le> total_pages" and "marked \<noteq> []"
    and "\<forall>p \<in> set marked. 1 \<le> p \<and> p \<le> total_pages"
  shows "\<exists>rs. split_ranges total_pages (sorted_set marked) = Inr rs
           \<and> sorted_wrt (<) (map fst rs)
           \<and> (\<forall>r \<in> set rs. fst r \<le> snd r)
           \<and> (\<forall>i. Suc i < length rs \<longrightarrow> fst (rs ! Suc i) = snd (rs ! i) + 1)
           \<and> (\<forall>i j. i < j \<and> j < length rs \<longrightarrow>
                 {fst (rs ! i)..snd (rs ! i)} \<inter> {fst (rs ! j)..snd (rs ! j)} = {})
           \<and> (\<Union>r \<in> set rs. {fst r..snd r}) = {1..total_pages}"
proof -
  obtain rs where rs: "split_ranges total_pages (sorted_set marked) = Inr rs"
    and c: "chain 1 rs total_pages"
    using derive_chain [OF assms(2,3)] by blast
  have "sorted_wrt (<) (map fst rs)" using c by (rule chain_sorted)
  moreover have "\<forall>r \<in> set rs. fst r \<le> snd r" using c chain_starts by blast
  moreover have "\<forall>i. Suc i < length rs \<longrightarrow> fst (rs ! Suc i) = snd (rs ! i) + 1"
    using c chain_adjacent by blast
  moreover have "\<forall>i j. i < j \<and> j < length rs \<longrightarrow>
      {fst (rs ! i)..snd (rs ! i)} \<inter> {fst (rs ! j)..snd (rs ! j)} = {}"
    using c chain_disjoint by blast
  moreover have "(\<Union>r \<in> set rs. {fst r..snd r}) = {1..total_pages}"
    using c by (rule chain_union)
  ultimately show ?thesis using rs by blast
qed

theorem derived_ranges_valid_witness:
  "(1::int) \<le> 10 \<and> [5, 1, 8, 5] \<noteq> ([]::int list)
   \<and> list_all (\<lambda>p. (1::int) \<le> p \<and> p \<le> 10) [5, 1, 8, 5]
   \<and> (\<exists>rs. split_ranges 10 (sorted_set [5, 1, 8, 5]) = Inr rs
           \<and> sorted_wrt (<) (map fst rs)
           \<and> (\<forall>r \<in> set rs. fst r \<le> snd r)
           \<and> (\<forall>i. Suc i < length rs \<longrightarrow> fst (rs ! Suc i) = snd (rs ! i) + 1)
           \<and> (\<forall>i j. i < j \<and> j < length rs \<longrightarrow>
                 {fst (rs ! i)..snd (rs ! i)} \<inter> {fst (rs ! j)..snd (rs ! j)} = {})
           \<and> (\<Union>r \<in> set rs. {fst r..snd r}) = {1..10})"
  using derived_ranges_valid [of 10 "[5, 1, 8, 5]"] by simp

text \<open>
  Claim C5. On the three scenario inputs the range derivation returns the ranges that
  are listed: ten pages marked at 1, 5 and 8 give (1,4), (5,7), (8,10); six pages marked
  at 3 give (1,2), (3,6); four pages all marked give (1,1), (2,2), (3,3), (4,4).
\<close>

theorem split_ranges_scenarios:
  "split_ranges 10 (sorted_set [1, 5, 8]) = Inr [(1, 4), (5, 7), (8, 10)]
   \<and> split_ranges 6 (sorted_set [3]) = Inr [(1, 2), (3, 6)]
   \<and> split_ranges 4 (sorted_set [1, 2, 3, 4]) = Inr [(1, 1), (2, 2), (3, 3), (4, 4)]"
  by (simp add: split_ranges_def sorted_set_def range_at_def)

text \<open>
  Claim C6. For every total page count of at least 1 and every non-empty collection of
  marked pages between 1 and the total, every marked page is the start of exactly one
  derived range, and when a page and its successor are both marked, the one-page range of
  that page is among the derived ranges.
\<close>

theorem marked_pages_start_ranges:
  assumes "1 \<le> total_pages" and "marked \<noteq> []"
    and "\<forall>p \<in> set marked. 1 \<le> p \<and> p \<le> total_pages"
  shows "\<exists>rs. split_ranges total_pages (sorted_set marked) = Inr rs
           \<and> (\<forall>m \<in> set marked. length (filter (\<lambda>r. fst r = m) rs) = 1)
           \<and> (\<forall>m. m \<in> set marked \<and> m + 1 \<in> set marked \<longrightarrow> (m, m) \<in> set rs)"
proof -
  obtain rs where rs: "split_ranges total_pages (sorted_set marked) = Inr rs"
    and c: "chain 1 rs total_pages"
    using derive_chain [OF assms(2,3)] by blast
  have "sorted_set marked \<noteq> []" using rs by (auto simp: split_ranges_def)
  then obtain p ps where hp: "sorted_set marked = p # ps" by (cases "sorted_set marked") auto
  have rs_eq: "rs = (if p > 1 then [(1, p - 1)] else []) @ marked_ranges total_pages (p # ps)"
    using rs split_ranges_marks [OF hp, of total_pages] hp by simp
  have d: "distinct (map fst rs)"
    using chain_sorted [OF c] by (simp add: strict_sorted_iff)
  have one: "length (filter (\<lambda>r. fst r = m) rs) = 1" if "m \<in> set marked" for m
  proof -
    have "m \<in> set (map fst (marked_ranges total_pages (p # ps)))"
      using that hp set_sorted_set [of marked] by (simp only: map_fst_marked_ranges)
    then obtain r where r: "r \<in> set (marked_ranges total_pages (p # ps))" "fst r = m" by auto
    then have "r \<in> set rs" using rs_eq by simp
    from filter_distinct_key [OF d this] r show ?thesis by simp
  qed
  have two: "(m, m) \<in> set rs" if "m \<in> set marked" "m + 1 \<in> set marked" for m
  proof -
    have "sorted_wrt (<) (p # ps)" using sorted_set_strict [of marked] hp by simp
    moreover have "m \<in> set (p # ps)" "m + 1 \<in> set (p # ps)"
      using that hp set_sorted_set [of marked] by simp_all
    ultimately have "(m, m) \<in> set (marked_ranges total_pages (p # ps))"
      by (rule consecutive_marks)
    then show ?thesis using rs_eq by simp
  qed
  from rs one two show ?thesis by blast
qed

theorem marked_pages_start_ranges_witness:
  "(1::int) \<le> 4 \<and> [1, 2, 4] \<noteq> ([]::int list)
   \<and> list_all (\<lambda>p. (1::int) \<le> p \<and> p \<le> 4) [1, 2, 4]
   \<and> (\<exists>rs. split_ranges 4 (sorted_set [1, 2, 4]) = Inr rs
           \<and> (\<forall>m \<in> set [1, 2, 4]. length (filter (\<lambda>r. fst r = m) rs) = 1)
           \<and> (\<forall>m. m \<in> set [1, 2, 4] \<and> m + 1 \<in> set [1, 2, 4] \<longrightarrow> (m, m) \<in> set rs))"
  using marked_pages_start_ranges [of 4 "[1, 2, 4]"] by simp

text \<open>
  Claim C3. When the segments of a stored job yield no high-confidence page, the
  endpoint returns an error and neither ranges nor parts; for a completed job with its
  uploaded file stored, the error is the one of line 496, status 400 with the detail
  \<open>No high confidence pages found in the result\<close>. No range covering the whole
  document is returned in its place.
\<close>

theorem no_high_confidence_pages_error:
  assumes "jobs_storage job_id = Some job" and "result job = Some res"
    and "segments res = Some segs" and "high_confidence_pages segs = []"
  shows "(\<exists>e. split_pdf_by_confidence PdfReader jobs_storage job_id = Inl e)
         \<and> (status job = Some ''completed'' \<and> original_file_content job = Some content
              \<and> content \<noteq> [] \<longrightarrow>
            split_pdf_by_confidence PdfReader jobs_storage job_id
              = Inl (HTTPException 400 (Message ''No high confidence pages found in the result'')))"
  using assms by (simp add: split_pdf_by_confidence_def split: option.split)

theorem no_high_confidence_pages_error_witness:
  "high_confidence_pages
     [\<lparr>confidence_category = Some ''low'', pages = Some (PageList [1, 2])\<rparr>,
      \<lparr>confidence_category = Some ''high'', pages = Some (PageList [])\<rparr>] = []
   \<and> split_pdf_by_confidence (\<lambda>c. Some [''p1'', ''p2''])
       [''j1'' \<mapsto> completed_job (Some
          [\<lparr>confidence_category = Some ''low'', pages = Some (PageList [1, 2])\<rparr>,
           \<lparr>confidence_category = Some ''high'', pages = Some (PageList [])\<rparr>]) ''a.pdf'']
       ''j1''
     = Inl (HTTPException 400 (Message ''No high confidence pages found in the result''))"
  using no_high_confidence_pages_error
    [of "[''j1'' \<mapsto> completed_job (Some
          [\<lparr>confidence_category = Some ''low'', pages = Some (PageList [1, 2])\<rparr>,
           \<lparr>confidence_category = Some ''high'', pages = Some (PageList [])\<rparr>]) ''a.pdf'']"
        "''j1''"
        "completed_job (Some
          [\<lparr>confidence_category = Some ''low'', pages = Some (PageList [1, 2])\<rparr>,
           \<lparr>confidence_category = Some ''high'', pages = Some (PageList [])\<rparr>]) ''a.pdf''"
        "\<lparr>segments = Some
          [\<lparr>confidence_category = Some ''low'', pages = Some (PageList [1, 2])\<rparr>,
           \<lparr>confidence_category = Some ''high'', pages = Some (PageList [])\<rparr>]\<rparr>"
        "[\<lparr>confidence_category = Some ''low'', pages = Some (PageList [1, 2])\<rparr>,
          \<lparr>confidence_category = Some ''high'', pages = Some (PageList [])\<rparr>]"
        "\<lambda>c. Some [''p1'', ''p2'']" "''%PDF''"]
  by (simp add: completed_job_def high_confidence_pages_def extend_high_def get_pages_def)

section \<open>Slicing\<close>

text \<open>
  Claim C10, as stated, fails: a range is not kept from starting below page 1, and the
  first index of the loop is then negative. For the range (-5,2) on a source of three
  pages the first access, at index -6, raises \<open>IndexError\<close>; a job whose only
  high-confidence page is -5 is answered with status 500 for that reason.
\<close>

theorem copy_loop_negative_start_counterexample:
  "copy_pages [''p1'', ''p2'', ''p3''] (- 5) 2 = Inl IndexError
   \<and> split_pdf_by_confidence (\<lambda>c. Some [''p1'', ''p2'', ''p3''])
       [''j1'' \<mapsto> completed_job (Some
          [\<lparr>confidence_category = Some ''high'', pages = Some (PageList [- 5])\<rparr>]) ''a.pdf'']
       ''j1''
     = Inl (HTTPException 500 (ErrorSplittingPDF IndexError))"
  by (simp add: eval_defs completed_job_def)

text \<open>
  Claim C10, amended. For every range and every source document, the page-copy loop
  runs through indices between \<open>start - 1\<close> and \<open>min end total_pages - 1\<close> only. For
  a range that starts at page 1 or later, each of these is an index of a page of the
  source and no page access raises, also when the end of the range lies beyond the last
  page. In general the copy returns exactly when the loop has no index to run through
  (\<open>min end total_pages < start\<close>) or \<open>1 - total_pages \<le> start\<close>, and the writer then
  holds \<open>max 0 (min end total_pages - start + 1)\<close> pages; otherwise the first access
  raises \<open>IndexError\<close>.
\<close>

theorem copy_loop_in_bounds:
  "(\<forall>i \<in> set (page_nums pdf_pages start end').
      start - 1 \<le> i \<and> i \<le> min end' (int (length pdf_pages)) - 1)
   \<and> (1 \<le> start \<longrightarrow>
        (\<forall>i \<in> set (page_nums pdf_pages start end').
           0 \<le> i \<and> i < int (length pdf_pages)
           \<and> pages_getitem pdf_pages i = Inr (pdf_pages ! nat i))
        \<and> (\<exists>writer. copy_pages pdf_pages start end' = Inr writer
              \<and> int (length writer) = max 0 (min end' (int (length pdf_pages)) - start + 1)))
   \<and> ((\<exists>writer. copy_pages pdf_pages start end' = Inr writer) \<longleftrightarrow>
        (min end' (int (length pdf_pages)) < start \<or> 1 - int (length pdf_pages) \<le> start))
   \<and> (\<forall>writer. copy_pages pdf_pages start end' = Inr writer \<longrightarrow>
          int (length writer) = max 0 (min end' (int (length pdf_pages)) - start + 1))
   \<and> (start \<le> min end' (int (length pdf_pages)) \<and> start < 1 - int (length pdf_pages) \<longrightarrow>
          copy_pages pdf_pages start end' = Inl IndexError)"
proof (intro conjI impI)
  show "\<forall>i \<in> set (page_nums pdf_pages start end').
          start - 1 \<le> i \<and> i \<le> min end' (int (length pdf_pages)) - 1"
    by (auto simp: page_nums_def py_range_def)
next
  assume "1 \<le> start"
  then show "\<forall>i \<in> set (page_nums pdf_pages start end').
          0 \<le> i \<and> i < int (length pdf_pages)
          \<and> pages_getitem pdf_pages i = Inr (pdf_pages ! nat i)"
    by (auto simp: page_nums_def py_range_def pages_getitem_in_range)
next
  assume s: "1 \<le> start"
  have "copy_pages pdf_pages start end' = Inr (page_slice pdf_pages start end')"
    using s by (rule copy_pages_ok)
  moreover have "int (length (page_slice pdf_pages start end'))
                 = max 0 (min end' (int (length pdf_pages)) - start + 1)"
    using s by (rule length_page_slice)
  ultimately show "\<exists>writer. copy_pages pdf_pages start end' = Inr writer
      \<and> int (length writer) = max 0 (min end' (int (length pdf_pages)) - start + 1)"
    by blast
next
  show "(\<exists>writer. copy_pages pdf_pages start end' = Inr writer) \<longleftrightarrow>
        (min end' (int (length pdf_pages)) < start \<or> 1 - int (length pdf_pages) \<le> start)"
  proof
    assume r: "\<exists>writer. copy_pages pdf_pages start end' = Inr writer"
    show "min end' (int (length pdf_pages)) < start \<or> 1 - int (length pdf_pages) \<le> start"
    proof (rule ccontr)
      assume "\<not> (min end' (int (length pdf_pages)) < start \<or> 1 - int (length pdf_pages) \<le> start)"
      then have "start \<le> min end' (int (length pdf_pages))" and "start < 1 - int (length pdf_pages)"
        by linarith+
      then have "copy_pages pdf_pages start end' = Inl IndexError" by (rule copy_pages_raises)
      with r show False by simp
    qed
  next
    assume "min end' (int (length pdf_pages)) < start \<or> 1 - int (length pdf_pages) \<le> start"
    from copy_pages_returns [OF this]
    show "\<exists>writer. copy_pages pdf_pages start end' = Inr writer" by blast
  qed
next
  show "\<forall>writer. copy_pages pdf_pages start end' = Inr writer \<longrightarrow>
          int (length writer) = max 0 (min end' (int (length pdf_pages)) - start + 1)"
  proof (intro allI impI)
    fix writer assume w: "copy_pages pdf_pages start end' = Inr writer"
    have "min end' (int (length pdf_pages)) < start \<or> 1 - int (length pdf_pages) \<le> start"
    proof (rule ccontr)
      assume "\<not> (min end' (int (length pdf_pages)) < start \<or> 1 - int (length pdf_pages) \<le> start)"
      then have "start \<le> min end' (int (length pdf_pages))" and "start < 1 - int (length pdf_pages)"
        by linarith+
      then have "copy_pages pdf_pages start end' = Inl IndexError" by (rule copy_pages_raises)
      with w show False by simp
    qed
    from copy_pages_returns [OF this] w
    show "int (length writer) = max 0 (min end' (int (length pdf_pages)) - start + 1)" by auto
  qed
next
  assume "start \<le> min end' (int (length pdf_pages)) \<and> start < 1 - int (length pdf_pages)"
  then show "copy_pages pdf_pages start end' = Inl IndexError"
    using copy_pages_raises by blast
qed

theorem copy_loop_in_bounds_witness:
  "(1::int) \<le> 2
   \<and> list_all
         (\<lambda>i. 2 - 1 \<le> i \<and> i \<le> min 5 (int (length [''p1'', ''p2'', ''p3''])) - 1
            \<and> 0 \<le> i \<and> i < int (length [''p1'', ''p2'', ''p3''])
            \<and> pages_getitem [''p1'', ''p2'', ''p3''] i = Inr ([''p1'', ''p2'', ''p3''] ! nat i))
         (page_nums [''p1'', ''p2'', ''p3''] 2 5)
   \<and> (\<exists>writer. copy_pages [''p1'', ''p2'', ''p3''] 2 5 = Inr writer
               \<and> int (length writer) = max 0 (min 5 (int (length [''p1'', ''p2'', ''p3''])) - 2 + 1))
   \<and> (- 5 \<le> min 2 (int (length [''p1'', ''p2'', ''p3'']))
        \<and> - 5 < 1 - int (length [''p1'', ''p2'', ''p3'']))
   \<and> copy_pages [''p1'', ''p2'', ''p3''] (- 5) 2 = Inl IndexError"
  using copy_loop_in_bounds [of "[''p1'', ''p2'', ''p3'']" 2 5]
    copy_loop_in_bounds [of "[''p1'', ''p2'', ''p3'']" "- 5" 2]
  by (simp add: list_all_iff)

text \<open>Between the two, a start from \<open>1 - total_pages\<close> to 0 raises nothing: the
  negative indices count from the end of the document.\<close>

lemma copy_pages_start_zero_wraps:
  "copy_pages [''p1'', ''p2'', ''p3''] 0 2 = Inr [''p3'', ''p1'', ''p2'']"
  by (simp add: eval_defs)

text \<open>
  Claim C2, as stated, fails: slicing a source of three pages with the range (2,5) raises
  nothing. The loop of line 531 stops at \<open>min end total_pages\<close>, and the part is made
  of the pages 2 and 3, under a name that keeps the end 5.
\<close>

theorem slice_beyond_last_page_counterexample:
  "make_split_pdfs [''p1'', ''p2'', ''p3''] (Some ''doc.pdf'') 1 [(2, 5)]
   = Inr [\<lparr>part_filename = ''doc_part_1_pages_2-5.pdf'', part_content = [''p2'', ''p3''],
           part_pages = ''2-5''\<rparr>]"
  by (simp add: eval_defs)

text \<open>
  Claim C2, amended. For every source document and every sequence of ranges that start
  at page 1 or later, a range whose end exceeds the page count of the source does not
  make the slicing fail: one part per range is returned, and the part of that range
  holds the pages of the source from its start to the last page (none when the start
  lies beyond the last page), labelled with the range as given.
\<close>

theorem slicing_clamps_range_end:
  assumes "\<forall>r \<in> set (before @ (start, end') # after). 1 \<le> fst r"
    and "int (length pdf_pages) < end'"
  shows "\<exists>split_pdfs.
           make_split_pdfs pdf_pages (Some original_filename) 1 (before @ (start, end') # after)
             = Inr split_pdfs
           \<and> length split_pdfs = length (before @ (start, end') # after)
           \<and> part_content (split_pdfs ! length before) = drop (nat (start - 1)) pdf_pages
           \<and> part_pages (split_pdfs ! length before) = str_int start @ ''-'' @ str_int end'"
proof -
  let ?rs = "before @ (start, end') # after"
  have m: "make_split_pdfs pdf_pages (Some original_filename) 1 ?rs
           = Inr (parts_of pdf_pages original_filename 1 ?rs)"
    using assms(1) by (rule make_split_pdfs_ok)
  have lt: "length before < length ?rs" by simp
  have "page_slice pdf_pages start end' = drop (nat (start - 1)) pdf_pages"
    using assms(2) by (simp add: page_slice_def)
  then have "part_content (parts_of pdf_pages original_filename 1 ?rs ! length before)
             = drop (nat (start - 1)) pdf_pages"
    and "part_pages (parts_of pdf_pages original_filename 1 ?rs ! length before)
             = str_int start @ ''-'' @ str_int end'"
    using nth_parts_of [OF lt, of pdf_pages original_filename 1] by simp_all
  with m show ?thesis by (simp add: length_parts_of)
qed

theorem slicing_clamps_range_end_witness:
  "list_all (\<lambda>r. 1 \<le> fst r) ([(1::int, 1::int)] @ (2, 5) # [])
   \<and> int (length [''p1'', ''p2'', ''p3'']) < 5
   \<and> (\<exists>split_pdfs.
           make_split_pdfs [''p1'', ''p2'', ''p3''] (Some ''doc.pdf'') 1 ([(1, 1)] @ (2, 5) # [])
             = Inr split_pdfs
           \<and> length split_pdfs = length ([(1::int, 1::int)] @ (2, 5) # [])
           \<and> part_content (split_pdfs ! length [(1::int, 1::int)])
               = drop (nat (2 - 1)) [''p1'', ''p2'', ''p3'']
           \<and> part_pages (split_pdfs ! length [(1::int, 1::int)]) = str_int 2 @ ''-'' @ str_int 5)"
  using slicing_clamps_range_end [of "[(1, 1)]" 2 5 "[]" "[''p1'', ''p2'', ''p3'']" "''doc.pdf''"]
  by simp

text \<open>
  Claim C4. For every source document of at least one page and every non-empty
  collection of marked pages between 1 and its page count, slicing the derived ranges
  succeeds and the page counts of the parts add up to the page count of the source.
\<close>

theorem page_count_preserved:
  assumes "1 \<le> length pdf_pages" and "marked \<noteq> []"
    and "\<forall>p \<in> set marked. 1 \<le> p \<and> p \<le> int (length pdf_pages)"
  shows "\<exists>rs split_pdfs.
           split_ranges (int (length pdf_pages)) (sorted_set marked) = Inr rs
           \<and> make_split_pdfs pdf_pages (Some original_filename) 1 rs = Inr split_pdfs
           \<and> (\<Sum>d\<leftarrow>split_pdfs. length (part_content d)) = length pdf_pages"
proof -
  let ?t = "int (length pdf_pages)"
  obtain rs where rs: "split_ranges ?t (sorted_set marked) = Inr rs" and c: "chain 1 rs ?t"
    using derive_chain [OF assms(2,3)] by blast
  have "\<forall>r \<in> set rs. 1 \<le> fst r" using c chain_starts by blast
  then have m: "make_split_pdfs pdf_pages (Some original_filename) 1 rs
                = Inr (parts_of pdf_pages original_filename 1 rs)"
    by (rule make_split_pdfs_ok)
  have "int (\<Sum>d\<leftarrow>parts_of pdf_pages original_filename 1 rs. length (part_content d))
        = ?t + 1 - 1"
    using c by (rule chain_page_count) simp_all
  then have "(\<Sum>d\<leftarrow>parts_of pdf_pages original_filename 1 rs. length (part_content d))
             = length pdf_pages"
    by simp
  with rs m show ?thesis by blast
qed

theorem page_count_preserved_witness:
  "1 \<le> length [''p1'', ''p2'', ''p3'', ''p4'', ''p5'', ''p6'']
   \<and> [3, 5] \<noteq> ([]::int list)
   \<and> list_all
         (\<lambda>p. (1::int) \<le> p \<and> p \<le> int (length [''p1'', ''p2'', ''p3'', ''p4'', ''p5'', ''p6'']))
         [3, 5]
   \<and> (\<exists>rs split_pdfs.
           split_ranges (int (length [''p1'', ''p2'', ''p3'', ''p4'', ''p5'', ''p6'']))
             (sorted_set [3, 5]) = Inr rs
           \<and> make_split_pdfs [''p1'', ''p2'', ''p3'', ''p4'', ''p5'', ''p6''] (Some ''a.pdf'') 1 rs
               = Inr split_pdfs
           \<and> (\<Sum>d\<leftarrow>split_pdfs. length (part_content d))
               = length [''p1'', ''p2'', ''p3'', ''p4'', ''p5'', ''p6''])"
  using page_count_preserved
    [of "[''p1'', ''p2'', ''p3'', ''p4'', ''p5'', ''p6'']" "[3, 5]" "''a.pdf''"]
  by simp

section \<open>Names of the parts and entries of the archive\<close>

text \<open>
  Claim C7, as stated, fails: the part cut from \<open>scan.PDF\<close> is named with the
  extension \<open>.pdf\<close> that line 541 writes, not with the extension \<open>.PDF\<close> of the
  source, and it enters the archive under that name.
\<close>

theorem part_extension_counterexample:
  "make_split_pdfs [''p1'', ''p2''] (Some ''scan.PDF'') 1 [(1, 2)]
   = Inr [\<lparr>part_filename = ''scan_part_1_pages_1-2.pdf'', part_content = [''p1'', ''p2''],
           part_pages = ''1-2''\<rparr>]
   \<and> write_zip [\<lparr>part_filename = ''scan_part_1_pages_1-2.pdf'', part_content = [''p1'', ''p2''],
           part_pages = ''1-2''\<rparr>] []
     = Inr [(''scan_part_1_pages_1-2.pdf'', [''p1'', ''p2''])]
   \<and> original_extension ''scan.PDF'' = ''.PDF''
   \<and> ''scan_part_1_pages_1-2.pdf'' \<noteq> ''scan_part_1_pages_1-2'' @ original_extension ''scan.PDF''"
  by (simp add: eval_defs original_extension_def)

text \<open>
  Claim C7, amended. For every source filename and every sequence of ranges starting at
  page 1 or later, the part of the range at position \<open>idx\<close>, counted from 1, is named
  \<open>{baseName}_part_{idx}_pages_{start}-{end}.pdf\<close>, where the base name is the
  filename up to its last dot, and holds the pages of its range. The archive files each
  part under its name cut at the first NUL character, which is the name itself when the
  filename has no NUL character: when every name so cut is non-empty and at most 65535
  bytes long, the archive has exactly one entry per range, in the order of the ranges,
  and otherwise writing it raises.
\<close>

theorem part_names_and_entries:
  assumes "\<forall>r \<in> set rs. 1 \<le> fst r"
  shows "\<exists>split_pdfs.
           make_split_pdfs pdf_pages (Some original_filename) 1 rs = Inr split_pdfs
           \<and> length split_pdfs = length rs
           \<and> (\<forall>i < length rs.
                 part_filename (split_pdfs ! i) =
                   base_name_of original_filename @ ''_part_'' @ str_int (int i + 1)
                   @ ''_pages_'' @ str_int (fst (rs ! i)) @ ''-'' @ str_int (snd (rs ! i))
                   @ ''.pdf''
                 \<and> part_content (split_pdfs ! i)
                     = page_slice pdf_pages (fst (rs ! i)) (snd (rs ! i)))
           \<and> (if \<forall>p \<in> set split_pdfs. arcname (part_filename p) \<noteq> []
                    \<and> length (arcname (part_filename p)) \<le> 65535
               then write_zip split_pdfs []
                      = Inr (map (\<lambda>p. (arcname (part_filename p), part_content p)) split_pdfs)
               else \<exists>e. write_zip split_pdfs [] = Inl e)
           \<and> (CHR 0x00 \<notin> set original_filename \<longrightarrow>
                 (\<forall>p \<in> set split_pdfs. arcname (part_filename p) = part_filename p))"
proof -
  let ?ps = "parts_of pdf_pages original_filename 1 rs"
  have m: "make_split_pdfs pdf_pages (Some original_filename) 1 rs = Inr ?ps"
    using assms by (rule make_split_pdfs_ok)
  have l: "length ?ps = length rs" by (rule length_parts_of)
  have n: "\<forall>i < length rs.
          part_filename (?ps ! i) =
            base_name_of original_filename @ ''_part_'' @ str_int (int i + 1)
            @ ''_pages_'' @ str_int (fst (rs ! i)) @ ''-'' @ str_int (snd (rs ! i)) @ ''.pdf''
          \<and> part_content (?ps ! i) = page_slice pdf_pages (fst (rs ! i)) (snd (rs ! i))"
  proof (intro allI impI)
    fix i assume "i < length rs"
    from nth_parts_of [OF this, of pdf_pages original_filename 1]
    show "part_filename (?ps ! i) =
            base_name_of original_filename @ ''_part_'' @ str_int (int i + 1)
            @ ''_pages_'' @ str_int (fst (rs ! i)) @ ''-'' @ str_int (snd (rs ! i)) @ ''.pdf''
          \<and> part_content (?ps ! i) = page_slice pdf_pages (fst (rs ! i)) (snd (rs ! i))"
      by (simp add: split_filename_def add.commute)
  qed
  have z: "if \<forall>p \<in> set ?ps. arcname (part_filename p) \<noteq> []
                    \<and> length (arcname (part_filename p)) \<le> 65535
           then write_zip ?ps [] = Inr (map (\<lambda>p. (arcname (part_filename p), part_content p)) ?ps)
           else \<exists>e. write_zip ?ps [] = Inl e"
    using write_zip_ok [of ?ps "[]"] write_zip_fails [of ?ps "[]"] by (simp split: if_split)
  have a: "CHR 0x00 \<notin> set original_filename \<longrightarrow>
           (\<forall>p \<in> set ?ps. arcname (part_filename p) = part_filename p)"
  proof (intro impI ballI)
    fix p assume f: "CHR 0x00 \<notin> set original_filename" and "p \<in> set ?ps"
    then obtain i s e where "part_filename p = split_filename (base_name_of original_filename) i s e"
      using part_filename_parts_of by blast
    with f show "arcname (part_filename p) = part_filename p"
      by (simp add: arcname_id nul_split_filename)
  qed
  from m l n z a show ?thesis by blast
qed

theorem part_names_and_entries_witness:
  "list_all (\<lambda>r. 1 \<le> fst r) [(1::int, 2::int), (3, 6)]
   \<and> make_split_pdfs [''p1'', ''p2'', ''p3'', ''p4'', ''p5'', ''p6''] (Some ''scan.PDF'') 1
       [(1, 2), (3, 6)]
     = Inr [\<lparr>part_filename = ''scan_part_1_pages_1-2.pdf'', part_content = [''p1'', ''p2''],
             part_pages = ''1-2''\<rparr>,
            \<lparr>part_filename = ''scan_part_2_pages_3-6.pdf'',
             part_content = [''p3'', ''p4'', ''p5'', ''p6''], part_pages = ''3-6''\<rparr>]
   \<and> write_zip
       [\<lparr>part_filename = ''scan_part_1_pages_1-2.pdf'', part_content = [''p1'', ''p2''],
             part_pages = ''1-2''\<rparr>,
        \<lparr>part_filename = ''scan_part_2_pages_3-6.pdf'',
             part_content = [''p3'', ''p4'', ''p5'', ''p6''], part_pages = ''3-6''\<rparr>] []
     = Inr [(''scan_part_1_pages_1-2.pdf'', [''p1'', ''p2'']),
            (''scan_part_2_pages_3-6.pdf'', [''p3'', ''p4'', ''p5'', ''p6''])]"
  using part_names_and_entries
    [of "[(1, 2), (3, 6)]" "[''p1'', ''p2'', ''p3'', ''p4'', ''p5'', ''p6'']" "''scan.PDF''"]
  by (simp add: eval_defs)

text \<open>A filename with a NUL character: the two parts enter the archive under the same
  name.\<close>

lemma archive_name_cut_at_nul:
  "make_split_pdfs [''p1'', ''p2''] (Some [CHR ''a'', CHR 0x00, CHR ''b'', CHR ''.'', CHR ''p'', CHR ''d'', CHR ''f'']) 1 [(1, 1), (2, 2)]
   = Inr [\<lparr>part_filename = [CHR ''a'', CHR 0x00, CHR ''b''] @ ''_part_1_pages_1-1.pdf'',
            part_content = [''p1''], part_pages = ''1-1''\<rparr>,
          \<lparr>part_filename = [CHR ''a'', CHR 0x00, CHR ''b''] @ ''_part_2_pages_2-2.pdf'',
            part_content = [''p2''], part_pages = ''2-2''\<rparr>]
   \<and> write_zip
        [\<lparr>part_filename = [CHR ''a'', CHR 0x00, CHR ''b''] @ ''_part_1_pages_1-1.pdf'',
            part_content = [''p1''], part_pages = ''1-1''\<rparr>,
          \<lparr>part_filename = [CHR ''a'', CHR 0x00, CHR ''b''] @ ''_part_2_pages_2-2.pdf'',
            part_content = [''p2''], part_pages = ''2-2''\<rparr>] []
     = Inr [(''a'', [''p1'']), (''a'', [''p2''])]"
  by (simp add: eval_defs Let_def)

section \<open>Missing fields of the job result\<close>

text \<open>
  Claim C8, as stated, fails: a completed job whose first high-confidence segment has no
  \<open>pages\<close> key is split without any error, on the pages of the other segment alone.
\<close>

theorem segment_without_pages_counterexample:
  "split_pdf_by_confidence (\<lambda>c. Some [''p1'', ''p2'', ''p3''])
     [''j1'' \<mapsto> completed_job (Some
        [\<lparr>confidence_category = Some ''high'', pages = None\<rparr>,
         \<lparr>confidence_category = Some ''high'', pages = Some (PageList [2])\<rparr>]) ''a.pdf'']
     ''j1''
   = Inr \<lparr>zip_entries = [(''a_part_1_pages_1-1.pdf'', [''p1'']),
                         (''a_part_2_pages_2-3.pdf'', [''p2'', ''p3''])],
          zip_filename = ''a_split_pdfs.zip''\<rparr>"
  by (simp add: eval_defs completed_job_def)

text \<open>
  Claim C8, amended. For a completed job, a result that is missing or has no
  \<open>segments\<close> key makes the endpoint fail at once, with status 400 and the detail
  \<open>Job result not available or invalid\<close>. A segment without a \<open>pages\<close> key raises
  no error: it is skipped, the endpoint answering as it does for the result without that
  segment.
\<close>

theorem missing_fields_handling:
  assumes "jobs_storage job_id = Some job" and "status job = Some ''completed''"
  shows "(result job = None \<or> (\<exists>res. result job = Some res \<and> segments res = None) \<longrightarrow>
            split_pdf_by_confidence PdfReader jobs_storage job_id
              = Inl (HTTPException 400 (Message ''Job result not available or invalid'')))
         \<and> (result job = Some \<lparr>segments = Some (segs1 @ seg # segs2)\<rparr> \<and> pages seg = None \<longrightarrow>
            split_pdf_by_confidence PdfReader jobs_storage job_id
              = split_pdf_by_confidence PdfReader
                  (jobs_storage(job_id \<mapsto> job\<lparr>result := Some \<lparr>segments = Some (segs1 @ segs2)\<rparr>\<rparr>))
                  job_id)"
proof (intro conjI impI)
  assume "result job = None \<or> (\<exists>res. result job = Some res \<and> segments res = None)"
  then show "split_pdf_by_confidence PdfReader jobs_storage job_id
              = Inl (HTTPException 400 (Message ''Job result not available or invalid''))"
    using assms by (auto simp: split_pdf_by_confidence_def)
next
  let ?job' = "job\<lparr>result := Some \<lparr>segments = Some (segs1 @ segs2)\<rparr>\<rparr>"
  assume a: "result job = Some \<lparr>segments = Some (segs1 @ seg # segs2)\<rparr> \<and> pages seg = None"
  then have h: "high_confidence_pages (segs1 @ seg # segs2) = high_confidence_pages (segs1 @ segs2)"
    by (simp add: high_confidence_pages_skip)
  have b: "split_body PdfReader ?job' c hp = split_body PdfReader job c hp" for c hp
    by (rule split_body_filename) simp
  show "split_pdf_by_confidence PdfReader jobs_storage job_id
        = split_pdf_by_confidence PdfReader (jobs_storage(job_id \<mapsto> ?job')) job_id"
    using assms a h b by (simp add: split_pdf_by_confidence_def Let_def split: option.split)
qed

theorem missing_fields_handling_witness:
  "split_pdf_by_confidence (\<lambda>c. Some [''p1'', ''p2'', ''p3''])
     [''j0'' \<mapsto> completed_job None ''a.pdf''] ''j0''
   = Inl (HTTPException 400 (Message ''Job result not available or invalid''))
   \<and> split_pdf_by_confidence (\<lambda>c. Some [''p1'', ''p2'', ''p3''])
       [''j1'' \<mapsto> completed_job (Some
          [\<lparr>confidence_category = Some ''high'', pages = None\<rparr>,
           \<lparr>confidence_category = Some ''high'', pages = Some (PageList [2])\<rparr>]) ''a.pdf'']
       ''j1''
     = split_pdf_by_confidence (\<lambda>c. Some [''p1'', ''p2'', ''p3''])
         [''j1'' \<mapsto> completed_job (Some
            [\<lparr>confidence_category = Some ''high'', pages = Some (PageList [2])\<rparr>]) ''a.pdf'']
         ''j1''"
proof
  show "split_pdf_by_confidence (\<lambda>c. Some [''p1'', ''p2'', ''p3''])
     [''j0'' \<mapsto> completed_job None ''a.pdf''] ''j0''
   = Inl (HTTPException 400 (Message ''Job result not available or invalid''))"
    using missing_fields_handling
      [of "[''j0'' \<mapsto> completed_job None ''a.pdf'']" "''j0''" "completed_job None ''a.pdf''"
          "\<lambda>c. Some [''p1'', ''p2'', ''p3'']"]
    by (simp add: completed_job_def)
next
  show "split_pdf_by_confidence (\<lambda>c. Some [''p1'', ''p2'', ''p3''])
       [''j1'' \<mapsto> completed_job (Some
          [\<lparr>confidence_category = Some ''high'', pages = None\<rparr>,
           \<lparr>confidence_category = Some ''high'', pages = Some (PageList [2])\<rparr>]) ''a.pdf'']
       ''j1''
     = split_pdf_by_confidence (\<lambda>c. Some [''p1'', ''p2'', ''p3''])
         [''j1'' \<mapsto> completed_job (Some
            [\<lparr>confidence_category = Some ''high'', pages = Some (PageList [2])\<rparr>]) ''a.pdf'']
         ''j1''"
    using missing_fields_handling
      [of "[''j1'' \<mapsto> completed_job (Some
          [\<lparr>confidence_category = Some ''high'', pages = None\<rparr>,
           \<lparr>confidence_category = Some ''high'', pages = Some (PageList [2])\<rparr>]) ''a.pdf'']"
          "''j1''"
          "completed_job (Some
          [\<lparr>confidence_category = Some ''high'', pages = None\<rparr>,
           \<lparr>confidence_category = Some ''high'', pages = Some (PageList [2])\<rparr>]) ''a.pdf''"
          "\<lambda>c. Some [''p1'', ''p2'', ''p3'']"
          "[]" "\<lparr>confidence_category = Some ''high'', pages = None\<rparr>"
          "[\<lparr>confidence_category = Some ''high'', pages = Some (PageList [2])\<rparr>]"]
    by (simp add: completed_job_def)
qed

end
